theory Spec2Isabelle
  imports Complex_Main "HOL-Library.Multiset"
begin

section \<open>Tensors\<close>

text \<open>
  The program (\<^verbatim>\<open>model.py\<close>, class \<^verbatim>\<open>DNC\<close>) computes with dense float32 tensors.
  The embedding idealises the entries as real numbers. A rank-2 tensor is the list of its
  rows; a tensor with a single non-unit dimension (a row \<^verbatim>\<open>[1,n]\<close>, a column \<^verbatim>\<open>[n,1]\<close>,
  a flat \<^verbatim>\<open>[n]\<close>) is the list of its entries, so that \<^verbatim>\<open>tf.transpose\<close>,
  \<^verbatim>\<open>tf.expand_dims\<close> and \<^verbatim>\<open>tf.squeeze\<close> between such shapes are the identity.
  A shape that the library rejects is the error value \<open>InvalidArgument\<close>; a call with a
  keyword argument that the callee does not take is \<open>TypeError\<close>.
\<close>

type_synonym vec = "real list"
type_synonym mat = "real list list"

datatype error = InvalidArgument | TypeError

definition zeros_vec :: "nat \<Rightarrow> vec" where
  "zeros_vec n = replicate n 0"

definition zeros :: "nat \<Rightarrow> nat \<Rightarrow> mat" where
  "zeros r k = replicate r (replicate k 0)"

definition fill_vec :: "nat \<Rightarrow> real \<Rightarrow> vec" where
  "fill_vec n v = replicate n v"

definition fill :: "nat \<Rightarrow> nat \<Rightarrow> real \<Rightarrow> mat" where
  "fill r k v = replicate r (replicate k v)"

text \<open>\<^verbatim>\<open>np.identity(n)\<close>\<close>

definition identity :: "nat \<Rightarrow> mat" where
  "identity n = map (\<lambda>i. map (\<lambda>j. if i = j then 1 else 0) [0..<n]) [0..<n]"

text \<open>Elementwise sum of two tensors of one shape (\<^verbatim>\<open>alloc_weights += ...\<close>).\<close>

definition vadd :: "vec \<Rightarrow> vec \<Rightarrow> vec" where
  "vadd a b = map2 (+) a b"

definition dot :: "vec \<Rightarrow> vec \<Rightarrow> real" where
  "dot a b = (\<Sum>(x, y)\<leftarrow>zip a b. x * y)"

text \<open>\<^verbatim>\<open>tf.matmul\<close> of a row \<^verbatim>\<open>[1,n]\<close> by a matrix \<^verbatim>\<open>[n,m]\<close>; the inner dimensions must agree.\<close>

definition ncols :: "mat \<Rightarrow> nat" where
  "ncols a = (case a of [] \<Rightarrow> 0 | r # _ \<Rightarrow> length r)"

definition matmul_row :: "vec \<Rightarrow> mat \<Rightarrow> error + vec" where
  "matmul_row v a =
     (if length v \<noteq> length a then Inl InvalidArgument
      else Inr (map (\<lambda>j. \<Sum>i\<leftarrow>[0..<length v]. v ! i * a ! i ! j) [0..<ncols a]))"

text \<open>\<^verbatim>\<open>tf.matmul(a, b, transpose_b=True)\<close>: \<^verbatim>\<open>[n,w]\<close> by \<^verbatim>\<open>[k,w]\<close> gives \<^verbatim>\<open>[n,k]\<close>.\<close>

definition matmul_transpose_b :: "mat \<Rightarrow> mat \<Rightarrow> error + mat" where
  "matmul_transpose_b a b =
     (if list_all (\<lambda>ra. list_all (\<lambda>rb. length ra = length rb) b) a
      then Inr (map (\<lambda>ra. map (\<lambda>rb. dot ra rb) b) a)
      else Inl InvalidArgument)"

text \<open>
  \<^verbatim>\<open>a * v\<close> for a matrix \<^verbatim>\<open>[n,k]\<close> and a row \<^verbatim>\<open>[1,k']\<close>, with broadcasting: the
  column counts agree or one of them is 1.
\<close>

definition broadcast_mul :: "mat \<Rightarrow> vec \<Rightarrow> error + mat" where
  "broadcast_mul a v =
     (if list_all (\<lambda>r. length r = length v \<or> length r = 1 \<or> length v = 1) a
      then Inr (map (\<lambda>r. map (\<lambda>j. (if length r = 1 then r ! 0 else r ! j) *
                                   (if length v = 1 then v ! 0 else v ! j))
                           [0..<max (length r) (length v)]) a)
      else Inl InvalidArgument)"

text \<open>\<^verbatim>\<open>tf.nn.l2_normalize(x, 1)\<close>: \<^verbatim>\<open>x * rsqrt(max(sum(x**2), epsilon))\<close> on every row,
  with the library's default \<^verbatim>\<open>epsilon = 1e-12\<close>.\<close>

definition l2_normalize :: "mat \<Rightarrow> mat" where
  "l2_normalize x =
     map (\<lambda>r. map (\<lambda>v. v * inverse (sqrt (max (\<Sum>u\<leftarrow>r. u * u) (1 / 10 ^ 12)))) r) x"

text \<open>\<^verbatim>\<open>tf.nn.softmax(x, 0)\<close>: softmax down every column.\<close>

definition softmax0 :: "mat \<Rightarrow> mat" where
  "softmax0 x = map (\<lambda>r. map (\<lambda>j. exp (r ! j) / (\<Sum>r'\<leftarrow>x. exp (r' ! j))) [0..<length r]) x"

definition softplus :: "real \<Rightarrow> real" where
  "softplus x = ln (1 + exp x)"

definition sigmoid :: "real \<Rightarrow> real" where
  "sigmoid x = 1 / (1 + exp (- x))"

text \<open>
  \<^verbatim>\<open>tf.nn.top_k(x, k)\<close> on a row: the \<open>k\<close> largest entries in descending order with
  their indices; of two equal entries the one with the lower index comes first. It is an
  error to ask for more entries than the row has.
\<close>

definition top_k :: "vec \<Rightarrow> nat \<Rightarrow> error + (vec \<times> nat list)" where
  "top_k x k =
     (if length x < k then Inl InvalidArgument
      else (let indices = take k (sort_key (\<lambda>i. - (x ! i)) [0..<length x])
            in Inr (map (\<lambda>i. x ! i) indices, indices)))"

text \<open>\<^verbatim>\<open>tf.cumprod(x, axis=1, exclusive=True)\<close> on a row.\<close>

fun cumprod_from :: "real \<Rightarrow> vec \<Rightarrow> vec" where
  "cumprod_from a [] = []"
| "cumprod_from a (x # xs) = a # cumprod_from (a * x) xs"

definition cumprod_exclusive :: "vec \<Rightarrow> vec" where
  "cumprod_exclusive x = cumprod_from 1 x"

text \<open>\<^verbatim>\<open>tf.dynamic_partition(data, partitions, num)\<close> for data and partitions of one
  shape: output \<open>i\<close> holds, in order, the entries of the data labelled \<open>i\<close>.\<close>

definition dynamic_partition :: "vec \<Rightarrow> nat list \<Rightarrow> nat \<Rightarrow> error + vec list" where
  "dynamic_partition data partitions num =
     (if length data = length partitions \<and> list_all (\<lambda>p. p < num) partitions
      then Inr (map (\<lambda>i. map fst (filter (\<lambda>(d, p). p = i) (zip data partitions))) [0..<num])
      else Inl InvalidArgument)"

text \<open>\<^verbatim>\<open>tf.reshape(x, [r, k])\<close> and \<^verbatim>\<open>tf.reshape(x, [n])\<close> of a flat tensor.\<close>

definition reshape2 :: "vec \<Rightarrow> nat \<Rightarrow> nat \<Rightarrow> error + mat" where
  "reshape2 x r k =
     (if length x \<noteq> r * k then Inl InvalidArgument
      else Inr (map (\<lambda>i. take k (drop (i * k) x)) [0..<r]))"

definition reshape1 :: "vec \<Rightarrow> nat \<Rightarrow> error + vec" where
  "reshape1 x n = (if length x \<noteq> n then Inl InvalidArgument else Inr x)"

section \<open>The DNC object\<close>

record dnc =
  output_dim :: nat
  N :: nat
  W :: nat
  R :: nat
  interface_dim :: nat
  controller_dim :: nat
  "output" :: vec
  interface :: vec
  M :: mat
  usage :: vec
  L :: mat
  W_precedence :: vec
  W_read :: mat
  W_write :: vec
  read_v :: mat
  h :: vec
  c :: vec
  W_output :: mat
  W_interface :: mat
  W_read_out :: mat

text \<open>
  \<^verbatim>\<open>tf.truncated_normal\<close> draws random entries. The draws of \<^verbatim>\<open>__init__\<close> are a
  parameter: one entry generator for each random tensor, read at the tensor's shape.
\<close>

record draws =
  draw_output :: "nat \<Rightarrow> real"
  draw_interface :: "nat \<Rightarrow> real"
  draw_h :: "nat \<Rightarrow> real"
  draw_c :: "nat \<Rightarrow> real"
  draw_W_output :: "nat \<Rightarrow> nat \<Rightarrow> real"
  draw_W_interface :: "nat \<Rightarrow> nat \<Rightarrow> real"
  draw_W_read_out :: "nat \<Rightarrow> nat \<Rightarrow> real"

definition truncated_normal_vec :: "(nat \<Rightarrow> real) \<Rightarrow> nat \<Rightarrow> vec" where
  "truncated_normal_vec g n = map g [0..<n]"

definition truncated_normal :: "(nat \<Rightarrow> nat \<Rightarrow> real) \<Rightarrow> nat \<Rightarrow> nat \<Rightarrow> mat" where
  "truncated_normal g r k = map (\<lambda>i. map (g i) [0..<k]) [0..<r]"

text \<open>\<^verbatim>\<open>DNC.__init__(output_dim, memory_shape, n_read)\<close>\<close>

definition init :: "draws \<Rightarrow> nat \<Rightarrow> nat \<times> nat \<Rightarrow> nat \<Rightarrow> dnc" where
  "init d output_dim' memory_shape n_read =
     (let (n, w) = memory_shape;
          r = n_read;
          i = r * w + 3 * w + 5 * r + 3;
          yi = output_dim' + i
      in \<lparr> output_dim = output_dim', N = n, W = w, R = r,
           interface_dim = i, controller_dim = yi,
           output = truncated_normal_vec (draw_output d) output_dim',
           interface = truncated_normal_vec (draw_interface d) i,
           M = zeros n w,
           usage = fill_vec n (1 / 10 ^ 6),
           L = zeros n n,
           W_precedence = zeros_vec n,
           W_read = fill n r (1 / 10 ^ 6),
           W_write = fill_vec n (1 / 10 ^ 6),
           read_v = fill r w (1 / 10 ^ 6),
           h = truncated_normal_vec (draw_h d) yi,
           c = truncated_normal_vec (draw_c d) yi,
           W_output = truncated_normal (draw_W_output d) yi output_dim',
           W_interface = truncated_normal (draw_W_interface d) yi i,
           W_read_out = truncated_normal (draw_W_read_out d) (r * w) output_dim' \<rparr>)"

section \<open>Content lookup\<close>

definition content_lookup :: "dnc \<Rightarrow> mat \<Rightarrow> vec \<Rightarrow> error + mat" where
  "content_lookup s key strength =
     (let norm_mem = l2_normalize (M s);
          norm_key = l2_normalize key
      in case matmul_transpose_b norm_mem norm_key of
           Inl e \<Rightarrow> Inl e
         | Inr sim \<Rightarrow>
             (case broadcast_mul sim strength of
                Inl e \<Rightarrow> Inl e
              | Inr scaled \<Rightarrow> Inr (softmax0 scaled)))"

section \<open>Allocation weighting\<close>

text \<open>
  The loop of \<^verbatim>\<open>allocation_weighting\<close> adds, for every sorted position \<open>pos\<close> with
  row index \<open>idx\<close>, row \<open>idx\<close> of the identity matrix scaled by \<open>unorder[0, pos]\<close>.
  \<^verbatim>\<open>tf.slice(I, [idx, 0], [1, -1])\<close> is an error for a row index outside the matrix.
  The final \<^verbatim>\<open>tf.reshape(alloc_weights, [N, 1])\<close> turns the flat tensor of \<open>N\<close> entries
  into a column with the same entries.
\<close>

definition allocation_weighting :: "dnc \<Rightarrow> error + vec" where
  "allocation_weighting s =
     (case top_k (map (\<lambda>u. - 1 * u) (usage s)) (N s) of
        Inl e \<Rightarrow> Inl e
      | Inr (values, free_list) \<Rightarrow>
          (let sorted_usage_vec = map (\<lambda>v. v * - 1) values;
               cumprod = cumprod_exclusive sorted_usage_vec;
               unorder = map2 (\<lambda>u p. (1 - u) * p) sorted_usage_vec cumprod;
               alloc_weights = zeros_vec (N s);
               I = identity (N s)
           in if list_all (\<lambda>idx. idx < N s) free_list
              then Inr (fold (\<lambda>(pos, idx) alloc_weights.
                                 vadd alloc_weights (map (\<lambda>m. m * unorder ! pos) (I ! idx)))
                             (enumerate 0 free_list) alloc_weights)
              else Inl InvalidArgument))"

section \<open>Interface partition\<close>

record interface_parts =
  k_read :: mat
  b_read :: vec
  k_write :: vec
  b_write :: vec
  erase :: vec
  write_v :: vec
  free_gates :: vec
  alloc_gate :: vec
  write_gate :: vec
  read_modes :: mat

definition partition_interface :: "dnc \<Rightarrow> error + interface_parts" where
  "partition_interface s =
     (let partition = replicate (R s * W s) 0 @ replicate (R s) 1 @
                      replicate (W s) 2 @ [3] @ replicate (W s) 4 @ replicate (W s) 5 @
                      replicate (R s) 6 @ [7] @ [8] @ replicate (R s * 3) 9
      in case dynamic_partition (interface s) partition 10 of
           Inl e \<Rightarrow> Inl e
         | Inr parts \<Rightarrow>
        (case reshape2 (parts ! 0) (R s) (W s) of
           Inl e \<Rightarrow> Inl e
         | Inr k_read' \<Rightarrow>
        (case reshape1 (map sigmoid (parts ! 7)) 1 of
           Inl e \<Rightarrow> Inl e
         | Inr alloc_gate' \<Rightarrow>
        (case reshape1 (map sigmoid (parts ! 8)) 1 of
           Inl e \<Rightarrow> Inl e
         | Inr write_gate' \<Rightarrow>
        (case reshape2 (parts ! 9) 3 (R s) of
           Inl e \<Rightarrow> Inl e
         | Inr read_modes' \<Rightarrow>
             Inr \<lparr> k_read = k_read',
                   b_read = map (\<lambda>x. 1 + softplus x) (parts ! 1),
                   k_write = parts ! 2,
                   b_write = map (\<lambda>x. 1 + softplus x) (parts ! 3),
                   erase = map sigmoid (parts ! 4),
                   write_v = parts ! 5,
                   free_gates = map sigmoid (parts ! 6),
                   alloc_gate = alloc_gate',
                   write_gate = write_gate',
                   read_modes = softmax0 read_modes' \<rparr>)))))"

section \<open>The step\<close>

text \<open>\<^verbatim>\<open>def write(self): pass\<close> and \<^verbatim>\<open>def read(self): pass\<close>\<close>

definition "write" :: "dnc \<Rightarrow> dnc" where
  "write s = s"

definition read :: "dnc \<Rightarrow> dnc" where
  "read s = s"

text \<open>
  \<^verbatim>\<open>controller\<close> builds three Keras layers and calls each one. What
  \<^verbatim>\<open>Dense(units)\<close> and \<^verbatim>\<open>LSTM(units, return_state=True)\<close> compute, with their
  freshly drawn weights, is a parameter: \<open>Dense\<close> from the units and the flattened input to
  a row, \<open>LSTM\<close> from the units, the input sequence and the initial state \<open>h\<close>, \<open>c\<close> to the
  new \<open>h\<close> and \<open>c\<close>.
\<close>

record layers =
  Dense :: "nat \<Rightarrow> vec \<Rightarrow> vec"
  LSTM :: "nat \<Rightarrow> mat \<Rightarrow> vec \<Rightarrow> vec \<Rightarrow> vec \<times> vec"

text \<open>
  The call of a \<^verbatim>\<open>Concatenate()\<close> layer on a list of tensors, with the names of the
  keyword arguments of the call. The layer's call method takes the inputs only: the axis is
  an argument of the constructor (default: the last axis), and a call with a keyword
  argument raises \<^verbatim>\<open>TypeError\<close>. Without one, tensors with the same number of rows are
  joined row by row.
\<close>

definition Concatenate :: "mat list \<Rightarrow> string list \<Rightarrow> error + mat" where
  "Concatenate inputs kwargs =
     (if kwargs = []
      then (case inputs of
              [] \<Rightarrow> Inl InvalidArgument
            | m # ms \<Rightarrow>
                if list_all (\<lambda>m'. length m' = length m) ms
                then Inr (map concat (transpose inputs))
                else Inl InvalidArgument)
      else Inl TypeError)"

text \<open>
  \<^verbatim>\<open>controller\<close>: the input is flattened and passed through the dense layer; the
  line \<^verbatim>\<open>Concatenate()([x, self.read_v], axis=0)\<close> gives \<^verbatim>\<open>axis\<close> to the call of the
  layer; the LSTM step on the result would store the new hidden state.
\<close>

definition controller :: "layers \<Rightarrow> dnc \<Rightarrow> vec \<Rightarrow> error + dnc" where
  "controller keras s x =
     (let x' = Dense keras (W s) x
      in case Concatenate [[x'], read_v s] [''axis''] of
           Inl e \<Rightarrow> Inl e
         | Inr x_in \<Rightarrow>
             (let (h', c') = LSTM keras (controller_dim s) x_in (h s) (c s)
              in Inr (s\<lparr> h := h', c := c' \<rparr>)))"

text \<open>
  \<^verbatim>\<open>call\<close> mutates the object and returns a value, or raises. The model returns the
  object as the call leaves it, and either the error or the returned value: \<open>None\<close> is
  Python's \<^verbatim>\<open>None\<close>, \<open>Some t\<close> a tensor.
\<close>

definition call :: "layers \<Rightarrow> dnc \<Rightarrow> vec \<Rightarrow> dnc \<times> (error + mat option)" where
  "call keras s x =
     (case controller keras s x of
        Inl e \<Rightarrow> (s, Inl e)
      | Inr s1 \<Rightarrow>
     (case matmul_row (h s1) (W_output s1) of
        Inl e \<Rightarrow> (s1, Inl e)
      | Inr out \<Rightarrow>
        (let s2 = s1\<lparr> output := out \<rparr>
         in case matmul_row (h s2) (W_interface s2) of
              Inl e \<Rightarrow> (s2, Inl e)
            | Inr iface \<Rightarrow>
           (let s3 = s2\<lparr> interface := iface \<rparr>
            in case partition_interface s3 of
                 Inl e \<Rightarrow> (s3, Inl e)
               | Inr parts \<Rightarrow>
                   (let s4 = write s3; s5 = read s4 in (s5, Inr None))))))"

text \<open>A sequence of steps on one object: every step starts from the object as the step
  before left it, whether that step returned or raised.\<close>

fun run :: "layers \<Rightarrow> dnc \<Rightarrow> vec list \<Rightarrow> dnc" where
  "run keras s [] = s"
| "run keras s (x # xs) = run keras (fst (call keras s x)) xs"

definition diagonal :: "mat \<Rightarrow> vec" where
  "diagonal a = map (\<lambda>i. a ! i ! i) [0..<length a]"

section \<open>Layout, shapes and sample objects\<close>

text \<open>
  The layout of the interface vector in the words of the specification: consecutive
  fields of given sizes, cut from the front of the vector one after the other.
\<close>

fun split_sizes :: "nat list \<Rightarrow> 'a list \<Rightarrow> 'a list list" where
  "split_sizes [] xs = []"
| "split_sizes (n # ns) xs = take n xs # split_sizes ns (drop n xs)"

definition interface_fields :: "dnc \<Rightarrow> vec list" where
  "interface_fields s =
     split_sizes [R s * W s, R s, W s, 1, W s, W s, R s, 1, 1, 3 * R s] (interface s)"

text \<open>Sample objects: a constructed DNC with two memory rows of width one and one read
  head, the same object with a write weighting that is one-hot on row 0, and Keras layers
  that compute zero tensors of the configured sizes.\<close>

definition zero_draws :: draws where
  "zero_draws = \<lparr> draw_output = (\<lambda>i. 0), draw_interface = (\<lambda>i. 0), draw_h = (\<lambda>i. 0),
                   draw_c = (\<lambda>i. 0), draw_W_output = (\<lambda>i j. 0),
                   draw_W_interface = (\<lambda>i j. 0), draw_W_read_out = (\<lambda>i j. 0) \<rparr>"

definition dnc0 :: dnc where
  "dnc0 = init zero_draws 1 (2, 1) 1"

definition dnc1 :: dnc where
  "dnc1 = dnc0\<lparr> W_write := [1, 0] \<rparr>"

definition keras0 :: layers where
  "keras0 = \<lparr> Dense = (\<lambda>units x. replicate units 0),
               LSTM = (\<lambda>units x_in h' c'. (replicate units 0, replicate units 0)) \<rparr>"

text \<open>
  The allocation weighting in the words of the specification, for a usage vector \<open>u\<close> and
  a free list \<open>perm\<close> (sorted position to row index): the sorted usage values, their
  exclusive cumulative product (\<open>cumprod 0 = 1\<close>, \<open>cumprod k\<close> the product of the first
  \<open>k\<close> sorted values), the weight \<open>(1 - sorted_u[k]) * cumprod[k]\<close> of sorted position
  \<open>k\<close>, and the weights scattered to the rows \<open>perm[k]\<close>.
\<close>

definition alloc_spec :: "vec \<Rightarrow> nat list \<Rightarrow> vec" where
  "alloc_spec u perm =
     (let sorted_u = map (\<lambda>i. u ! i) perm;
          cumprod = (\<lambda>k. prod_list (take k sorted_u));
          weight = (\<lambda>k. (1 - sorted_u ! k) * cumprod k)
      in fold (\<lambda>k a. a[perm ! k := weight k]) [0..<length perm] (replicate (length u) 0))"

text \<open>A sample object with three memory rows and distinct usage values.\<close>

definition dnc2 :: dnc where
  "dnc2 = (init zero_draws 1 (3, 1) 1)\<lparr> usage := [1 / 2, 1 / 4, 1] \<rparr>"

section \<open>Interface partition: the layout\<close>

lemma part_replicate:
  "length xs = n \<Longrightarrow> map fst (filter (\<lambda>(d, p). p = i) (zip xs (replicate n l))) = (if i = l then xs else [])"
  by (induction xs arbitrary: n) auto

lemma part_block:
  assumes "n \<le> length xs"
  shows "map fst (filter (\<lambda>(d, p). p = i) (zip xs (replicate n l @ ps))) =
         (if i = l then take n xs else []) @ map fst (filter (\<lambda>(d, p). p = i) (zip (drop n xs) ps))"
proof -
  have "zip xs (replicate n l @ ps) = zip (take n xs @ drop n xs) (replicate n l @ ps)" by simp
  also have "\<dots> = zip (take n xs) (replicate n l) @ zip (drop n xs) ps"
    using assms by (intro zip_append) simp
  finally show ?thesis using assms by (simp add: part_replicate)
qed

lemma part_single:
  assumes "1 \<le> length xs"
  shows "map fst (filter (\<lambda>(d, p). p = i) (zip xs (l # ps))) =
         (if i = l then take 1 xs else []) @ map fst (filter (\<lambda>(d, p). p = i) (zip (drop 1 xs) ps))"
  using part_block[of 1 xs i l ps] assms by simp

lemma part_last:
  assumes "length xs = n"
  shows "map fst (filter (\<lambda>(d, p). p = i) (zip xs (replicate n l))) = (if i = l then take n xs else [])"
  using assms by (simp add: part_replicate)

lemma part_last_other:
  "i \<noteq> l \<Longrightarrow> filter (\<lambda>(d, p). p = i) (zip xs (replicate n l)) = []"
  by (auto simp: filter_empty_conv dest: set_zip_rightD)

lemma upt10: "[0..<10] = [0,1,2,3,4,5,6,7,8,9::nat]"
  by (simp add: upt_rec)

lemma dynamic_partition_layout:
  assumes "length xs = r * w + 3 * w + 5 * r + 3"
  shows "dynamic_partition xs (replicate (r * w) 0 @ replicate r 1 @
                      replicate w 2 @ [3] @ replicate w 4 @ replicate w 5 @
                      replicate r 6 @ [7] @ [8] @ replicate (r * 3) 9) 10
      = Inr (split_sizes [r * w, r, w, 1, w, w, r, 1, 1, 3 * r] xs)"
proof -
  let ?p = "replicate (r * w) 0 @ replicate r 1 @
                      replicate w 2 @ [3] @ replicate w 4 @ replicate w 5 @
                      replicate r 6 @ [7] @ [8] @ replicate (r * 3) (9::nat)"
  have labels: "list_all (\<lambda>p. p < 10) ?p"
    by (auto simp: list_all_iff)
  have len: "length xs = length ?p"
    using assms by simp
  have "map (\<lambda>i. map fst (filter (\<lambda>(d, p). p = i) (zip xs ?p))) [0..<10]
        = split_sizes [r * w, r, w, 1, w, w, r, 1, 1, 3 * r] xs"
    using assms by (simp add: upt10 part_block part_single part_last part_last_other)
  with labels len show ?thesis
    unfolding dynamic_partition_def by simp
qed

lemma interface_fields_sizes:
  assumes "length (interface s) = R s * W s + 3 * W s + 5 * R s + 3"
  shows "map length (interface_fields s) = [R s * W s, R s, W s, 1, W s, W s, R s, 1, 1, 3 * R s]"
  using assms by (simp add: interface_fields_def)

lemma interface_fields_length:
  assumes "length (interface s) = R s * W s + 3 * W s + 5 * R s + 3"
  shows "length (interface_fields s ! 0) = R s * W s"
    and "length (interface_fields s ! 7) = 1"
    and "length (interface_fields s ! 8) = 1"
    and "length (interface_fields s ! 9) = 3 * R s"
  using assms by (simp_all add: interface_fields_def)

lemma dynamic_partition_interface:
  assumes "length (interface s) = R s * W s + 3 * W s + 5 * R s + 3"
  shows "dynamic_partition (interface s)
           (replicate (R s * W s) 0 @ replicate (R s) 1 @
            replicate (W s) 2 @ [3] @ replicate (W s) 4 @ replicate (W s) 5 @
            replicate (R s) 6 @ [7] @ [8] @ replicate (R s * 3) 9) 10
         = Inr (interface_fields s)"
  unfolding interface_fields_def using assms by (rule dynamic_partition_layout)

lemma partition_interface_fields:
  assumes "length (interface s) = R s * W s + 3 * W s + 5 * R s + 3"
  shows "partition_interface s =
          Inr \<lparr> k_read = map (\<lambda>i. take (W s) (drop (i * W s) (interface_fields s ! 0))) [0..<R s],
                b_read = map (\<lambda>x. 1 + softplus x) (interface_fields s ! 1),
                k_write = interface_fields s ! 2,
                b_write = map (\<lambda>x. 1 + softplus x) (interface_fields s ! 3),
                erase = map sigmoid (interface_fields s ! 4),
                write_v = interface_fields s ! 5,
                free_gates = map sigmoid (interface_fields s ! 6),
                alloc_gate = map sigmoid (interface_fields s ! 7),
                write_gate = map sigmoid (interface_fields s ! 8),
                read_modes = softmax0 (map (\<lambda>i. take (R s) (drop (i * R s) (interface_fields s ! 9))) [0..<3]) \<rparr>"
  unfolding partition_interface_def Let_def dynamic_partition_interface[OF assms]
  by (simp add: reshape2_def reshape1_def interface_fields_length[OF assms])

lemma concat_split_sizes:
  "length xs \<le> sum_list ns \<Longrightarrow> concat (split_sizes ns xs) = xs"
  by (induction ns arbitrary: xs) auto

lemma interface_fields_concat:
  assumes "length (interface s) = R s * W s + 3 * W s + 5 * R s + 3"
  shows "concat (interface_fields s) = interface s"
  unfolding interface_fields_def using assms by (intro concat_split_sizes) simp

lemma partition_interface_length:
  assumes "partition_interface s = Inr p"
  shows "length (interface s) = R s * W s + 3 * W s + 5 * R s + 3"
proof (rule ccontr)
  assume "length (interface s) \<noteq> R s * W s + 3 * W s + 5 * R s + 3"
  then have "dynamic_partition (interface s) (replicate (R s * W s) 0 @ replicate (R s) 1 @
                      replicate (W s) 2 @ [3] @ replicate (W s) 4 @ replicate (W s) 5 @
                      replicate (R s) 6 @ [7] @ [8] @ replicate (R s * 3) 9) 10 = Inl InvalidArgument"
    by (simp add: dynamic_partition_def)
  with assms show False by (simp add: partition_interface_def)
qed

lemma softplus_pos: "0 < softplus x"
  by (simp add: softplus_def ln_gt_zero)

lemma controller_raises: "controller keras s x = Inl TypeError"
  by (simp add: controller_def Concatenate_def)

lemma call_raises: "call keras s x = (s, Inl TypeError)"
  by (simp add: call_def controller_raises)

lemma controller_frame:
  assumes "controller keras s x = Inr s1"
  shows "M s1 = M s \<and> usage s1 = usage s \<and> L s1 = L s \<and> W_precedence s1 = W_precedence s"
  using assms by (auto simp: controller_def Let_def split: sum.splits prod.splits)

lemma call_frame:
  "M (fst (call lstm s x)) = M s \<and> usage (fst (call lstm s x)) = usage s \<and>
   L (fst (call lstm s x)) = L s \<and> W_precedence (fst (call lstm s x)) = W_precedence s"
proof (cases "controller lstm s x")
  case (Inl e)
  then show ?thesis by (simp add: call_def)
next
  case (Inr s1)
  from controller_frame[OF this] Inr show ?thesis
    by (simp add: call_def write_def read_def Let_def split: sum.splits)
qed

lemma run_L: "L (run lstm s xs) = L s"
proof (induction xs arbitrary: s)
  case Nil
  show ?case by simp
next
  case (Cons x xs)
  have "L (fst (call lstm s x)) = L s" using call_frame[of lstm s x] by simp
  with Cons show ?case by simp
qed

lemma diagonal_zeros: "diagonal (zeros n n) = replicate n 0"
  by (auto simp: diagonal_def zeros_def list_eq_iff_nth_eq)

lemma init_L: "L (init d y (n, w) r) = zeros n n"
  by (simp add: init_def Let_def)

lemma dnc0_simps:
  "R dnc0 = 1" "W dnc0 = 1" "N dnc0 = 2" "controller_dim dnc0 = 13"
  "interface dnc0 = replicate 12 0" "M dnc0 = [[0], [0]]" "L dnc0 = [[0, 0], [0, 0]]"
  "usage dnc0 = [1 / 10 ^ 6, 1 / 10 ^ 6]"
  by (simp_all add: dnc0_def init_def zero_draws_def truncated_normal_vec_def zeros_def fill_vec_def
      map_replicate_const numeral_2_eq_2)

section \<open>Content lookup: the softmax columns\<close>

lemma sum_list_exp_pos:
  fixes g :: "'a \<Rightarrow> real"
  shows "x \<noteq> [] \<Longrightarrow> 0 < (\<Sum>r\<leftarrow>x. exp (g r))"
proof (induction x)
  case Nil
  then show ?case by simp
next
  case (Cons a x)
  have "0 \<le> (\<Sum>r\<leftarrow>x. exp (g r))"
    by (rule sum_list_nonneg) auto
  moreover have "0 < exp (g a)" by simp
  ultimately show ?case by (simp add: add_pos_nonneg)
qed

lemma sum_list_divide_const:
  fixes f :: "'a \<Rightarrow> real"
  shows "(\<Sum>r\<leftarrow>x. f r / d) = (\<Sum>r\<leftarrow>x. f r) / d"
  by (induction x) (simp_all add: add_divide_distrib)

lemma softmax0_length: "length (softmax0 x) = length x"
  by (simp add: softmax0_def)

lemma softmax0_ncols: "ncols (softmax0 x) = ncols x"
  by (cases x) (simp_all add: softmax0_def ncols_def)

lemma softmax0_column:
  assumes "list_all (\<lambda>r. j < length r) x"
  shows "map (\<lambda>r. r ! j) (softmax0 x) = map (\<lambda>r. exp (r ! j) / (\<Sum>r'\<leftarrow>x. exp (r' ! j))) x"
  using assms by (simp add: softmax0_def list_all_iff)

lemma softmax0_column_sum:
  assumes "x \<noteq> []" and "list_all (\<lambda>r. j < length r) x"
  shows "sum_list (map (\<lambda>r. r ! j) (softmax0 x)) = 1"
proof -
  have "0 < (\<Sum>r\<leftarrow>x. exp (r ! j))"
    using assms(1) by (rule sum_list_exp_pos)
  then show ?thesis
    by (simp add: softmax0_column[OF assms(2)] sum_list_divide_const)
qed

lemma softmax0_column_nonneg:
  assumes "list_all (\<lambda>r. j < length r) x"
  shows "list_all (\<lambda>v. 0 \<le> v) (map (\<lambda>r. r ! j) (softmax0 x))"
proof -
  have "0 \<le> (\<Sum>r\<leftarrow>x. exp (r ! j))"
    by (rule sum_list_nonneg) auto
  then show ?thesis
    by (simp add: softmax0_column[OF assms] list_all_iff)
qed

lemma content_lookup_scaled:
  assumes "content_lookup s key strength = Inr w"
  obtains scaled where "w = softmax0 scaled" and "length scaled = length (M s)"
    and "list_all (\<lambda>r. length r = max (length key) (length strength)) scaled"
proof -
  from assms obtain sim scaled where
    sim: "matmul_transpose_b (l2_normalize (M s)) (l2_normalize key) = Inr sim"
    and sc: "broadcast_mul sim strength = Inr scaled" and w: "w = softmax0 scaled"
    by (auto simp: content_lookup_def Let_def split: sum.splits)
  from sim have sim_eq: "sim = map (\<lambda>ra. map (\<lambda>rb. dot ra rb) (l2_normalize key)) (l2_normalize (M s))"
    by (simp add: matmul_transpose_b_def split: if_splits)
  then have l1: "length sim = length (M s)" and l2: "list_all (\<lambda>r. length r = length key) sim"
    by (simp_all add: l2_normalize_def list_all_iff)
  from sc have sc_eq: "scaled = map (\<lambda>r. map (\<lambda>j. (if length r = 1 then r ! 0 else r ! j) *
                                   (if length strength = 1 then strength ! 0 else strength ! j))
                           [0..<max (length r) (length strength)]) sim"
    by (simp add: broadcast_mul_def split: if_splits)
  have "length scaled = length (M s)" using sc_eq l1 by simp
  moreover have "list_all (\<lambda>r. length r = max (length key) (length strength)) scaled"
    using l2 unfolding sc_eq by (auto simp: list_all_iff)
  ultimately show thesis using w that by blast
qed

lemma content_lookup_columns:
  assumes "content_lookup s key strength = Inr w" and "M s \<noteq> []"
  shows "length w = length (M s)
       \<and> (\<forall>j<ncols w. list_all (\<lambda>v. 0 \<le> v) (map (\<lambda>r. r ! j) w) \<and> sum_list (map (\<lambda>r. r ! j) w) = 1)"
proof -
  from assms(1) obtain scaled where w: "w = softmax0 scaled" and len: "length scaled = length (M s)"
    and rows: "list_all (\<lambda>r. length r = max (length key) (length strength)) scaled"
    by (rule content_lookup_scaled)
  have ne: "scaled \<noteq> []" using len assms(2) by auto
  have nc: "ncols scaled = max (length key) (length strength)"
    using ne rows by (cases scaled) (simp_all add: ncols_def)
  have "list_all (\<lambda>r. j < length r) scaled" if "j < ncols w" for j
    using that rows by (simp add: w softmax0_ncols nc list_all_iff)
  then show ?thesis
    using softmax0_column_sum[OF ne] softmax0_column_nonneg
    by (simp add: w softmax0_length len)
qed

lemma content_lookup_returns:
  assumes "list_all (\<lambda>r. length r = W s) (M s)" and "list_all (\<lambda>r. length r = W s) key"
    and "length strength = length key \<or> length strength = 1 \<or> length key = 1"
  shows "\<exists>w. content_lookup s key strength = Inr w"
proof -
  have "list_all (\<lambda>ra. list_all (\<lambda>rb. length ra = length rb) (l2_normalize key)) (l2_normalize (M s))"
    using assms(1,2) by (auto simp: l2_normalize_def list_all_iff)
  then obtain sim where sim: "matmul_transpose_b (l2_normalize (M s)) (l2_normalize key) = Inr sim"
    and sim_eq: "sim = map (\<lambda>ra. map (\<lambda>rb. dot ra rb) (l2_normalize key)) (l2_normalize (M s))"
    by (simp add: matmul_transpose_b_def)
  have "list_all (\<lambda>r. length r = length strength \<or> length r = 1 \<or> length strength = 1) sim"
    using assms(3) unfolding sim_eq by (auto simp: list_all_iff l2_normalize_def)
  then obtain scaled where "broadcast_mul sim strength = Inr scaled"
    by (simp add: broadcast_mul_def)
  with sim show ?thesis by (simp add: content_lookup_def Let_def)
qed

lemma dnc0_content_lookup: "content_lookup dnc0 [[0]] [1] = Inr [[1 / 2], [1 / 2]]"
  by (simp add: content_lookup_def dnc0_simps l2_normalize_def matmul_transpose_b_def dot_def
      broadcast_mul_def softmax0_def)

section \<open>Allocation weighting: the sorted scan and the scatter loop\<close>

lemma cumprod_from_length: "length (cumprod_from a xs) = length xs"
  by (induction xs arbitrary: a) auto

lemma cumprod_from_nth:
  "k < length xs \<Longrightarrow> cumprod_from a xs ! k = a * prod_list (take k xs)"
proof (induction xs arbitrary: a k)
  case Nil
  then show ?case by simp
next
  case (Cons x xs)
  then show ?case by (cases k) (simp_all add: mult.assoc)
qed

lemma unorder_nth:
  assumes "k < length su"
  shows "map2 (\<lambda>u p. (1 - u) * p) su (cumprod_exclusive su) ! k = (1 - su ! k) * prod_list (take k su)"
  using assms by (simp add: cumprod_exclusive_def cumprod_from_length cumprod_from_nth)

lemma unorder_sum:
  "sum_list (map2 (\<lambda>u p. (1 - u) * p) xs (cumprod_from a xs)) = a - a * prod_list xs"
proof (induction xs arbitrary: a)
  case Nil
  show ?case by simp
next
  case (Cons x xs)
  have "sum_list (map2 (\<lambda>u p. (1 - u) * p) (x # xs) (cumprod_from a (x # xs)))
        = (1 - x) * a + (a * x - a * x * prod_list xs)"
    by (simp add: Cons.IH)
  also have "\<dots> = a - a * prod_list (x # xs)"
    by (simp add: algebra_simps)
  finally show ?case .
qed

lemma onehot_add:
  assumes "x < n" and "length a = n"
  shows "vadd a (map (\<lambda>m. m * v) (identity n ! x)) = a[x := a ! x + v]"
  using assms by (auto simp: vadd_def identity_def list_eq_iff_nth_eq nth_list_update)

lemma top_k_usage:
  assumes "length u = n"
  obtains fl where "top_k (map (\<lambda>v. - 1 * v) u) n = Inr (map (\<lambda>i. - (u ! i)) fl, fl)"
    and "mset fl = mset [0..<n]" and "sorted (map (\<lambda>i. u ! i) fl)"
proof -
  let ?x = "map (\<lambda>v. - 1 * v) u"
  let ?fl = "sort_key (\<lambda>i. - (?x ! i)) [0..<length ?x]"
  have set: "set ?fl = {0..<n}" using assms by simp
  have key: "- (?x ! i) = u ! i" if "i \<in> set ?fl" for i
    using that assms by simp
  have eq: "map (\<lambda>i. - (?x ! i)) ?fl = map (\<lambda>i. u ! i) ?fl"
    using key by (intro map_cong) auto
  have 1: "sorted (map (\<lambda>i. u ! i) ?fl)"
    unfolding eq[symmetric] by (rule sorted_sort_key)
  have 2: "mset ?fl = mset [0..<n]" using assms by simp
  have "map (\<lambda>i. ?x ! i) ?fl = map (\<lambda>i. - (u ! i)) ?fl"
    using set assms by (intro map_cong) auto
  then have 3: "top_k ?x n = Inr (map (\<lambda>i. - (u ! i)) ?fl, ?fl)"
    using assms by (simp add: top_k_def Let_def)
  from 3 2 1 show thesis by (rule that)
qed

lemma sum_list_bump:
  fixes a :: "real list"
  shows "x < length a \<Longrightarrow> sum_list (a[x := a ! x + v]) = sum_list a + v"
proof (induction a arbitrary: x)
  case Nil
  then show ?case by simp
next
  case (Cons y ys)
  then show ?case by (cases x) simp_all
qed

lemma loop_update:
  assumes "\<forall>x\<in>set xs. x < n" and "length a = n"
  shows "fold (\<lambda>(pos, idx) alloc_weights.
                 vadd alloc_weights (map (\<lambda>m. m * unorder ! pos) (identity n ! idx)))
              (enumerate k xs) a
       = fold (\<lambda>(pos, idx) b. b[idx := b ! idx + unorder ! pos]) (enumerate k xs) a"
  using assms
proof (induction xs arbitrary: k a)
  case Nil
  show ?case by simp
next
  case (Cons x xs)
  then show ?case by (simp add: onehot_add)
qed

lemma bump_length:
  "length (fold (\<lambda>(pos, idx) b. b[idx := b ! idx + unorder ! pos]) (enumerate k xs) a) = length a"
  by (induction xs arbitrary: k a) simp_all

lemma bump_other:
  "j \<notin> set xs \<Longrightarrow>
   fold (\<lambda>(pos, idx) b. b[idx := b ! idx + unorder ! pos]) (enumerate k xs) a ! j = a ! j"
  by (induction xs arbitrary: k a) auto

lemma bump_nth:
  assumes "distinct xs" and "\<forall>x\<in>set xs. x < length a" and "i < length xs"
  shows "fold (\<lambda>(pos, idx) b. b[idx := b ! idx + unorder ! pos]) (enumerate k xs) a ! (xs ! i)
         = a ! (xs ! i) + unorder ! (k + i)"
  using assms
proof (induction xs arbitrary: k a i)
  case Nil
  then show ?case by simp
next
  case (Cons x xs)
  show ?case
  proof (cases i)
    case 0
    with Cons.prems show ?thesis by (simp add: bump_other)
  next
    case (Suc i')
    with Cons.prems have "xs ! i' \<noteq> x" by auto
    with Cons.prems Suc show ?thesis by (simp add: Cons.IH)
  qed
qed

lemma bump_sum:
  fixes unorder :: "real list"
  assumes "\<forall>x\<in>set xs. x < length a" and "k + length xs \<le> length unorder"
  shows "sum_list (fold (\<lambda>(pos, idx) b. b[idx := b ! idx + unorder ! pos]) (enumerate k xs) a)
         = sum_list a + sum_list (take (length xs) (drop k unorder))"
  using assms
proof (induction xs arbitrary: k a)
  case Nil
  show ?case by simp
next
  case (Cons x xs)
  have k: "k < length unorder" using Cons.prems by simp
  have d: "drop k unorder = unorder ! k # drop (Suc k) unorder"
    using k by (simp add: Cons_nth_drop_Suc)
  let ?b = "a[x := a ! x + unorder ! k]"
  have "sum_list (fold (\<lambda>(pos, idx) b. b[idx := b ! idx + unorder ! pos]) (enumerate k (x # xs)) a)
        = sum_list (fold (\<lambda>(pos, idx) b. b[idx := b ! idx + unorder ! pos]) (enumerate (Suc k) xs) ?b)"
    by simp
  also have "\<dots> = sum_list ?b + sum_list (take (length xs) (drop (Suc k) unorder))"
    using Cons.prems by (intro Cons.IH) auto
  also have "sum_list ?b = sum_list a + unorder ! k"
    using Cons.prems by (intro sum_list_bump) simp
  finally show ?case by (simp add: d)
qed

lemma perm_upt_facts:
  assumes "mset fl = mset [0..<n]"
  shows "length fl = n" and "distinct fl" and "set fl = {0..<n}"
proof -
  show "length fl = n" using assms by (metis length_upt diff_zero size_mset)
  show "distinct fl" using assms by (metis distinct_upt mset_eq_imp_distinct_iff)
  show "set fl = {0..<n}" using assms by (metis set_upt mset_eq_setD)
qed

lemma alloc_spec_fold_nth:
  assumes "distinct p" and "m \<le> length p" and "\<forall>x\<in>set p. x < length a" and "k < m"
  shows "fold (\<lambda>k b. b[p ! k := g k]) [0..<m] a ! (p ! k) = g k"
  using assms(2,4)
proof (induction m)
  case 0
  then show ?case by simp
next
  case (Suc m)
  have len: "length (fold (\<lambda>k b. b[p ! k := g k]) [0..<m] a) = length a"
    by (induction m) simp_all
  show ?case
  proof (cases "k = m")
    case True
    then show ?thesis using Suc.prems assms(3) by (simp add: len)
  next
    case False
    then have "k < m" using Suc.prems by simp
    moreover have "p ! k \<noteq> p ! m"
      using False Suc.prems assms(1) by (simp add: nth_eq_iff_index_eq)
    ultimately show ?thesis using Suc by simp
  qed
qed

lemma alloc_spec_length: "length (alloc_spec u p) = length u"
proof -
  have "length (fold (\<lambda>k b. b[p ! k := g k]) ks a) = length a" for g ks and a :: "real list"
    by (induction ks arbitrary: a) simp_all
  then show ?thesis by (simp add: alloc_spec_def Let_def)
qed

lemma alloc_spec_nth:
  assumes "mset p = mset [0..<length u]" and "k < length u"
  shows "alloc_spec u p ! (p ! k) = (1 - u ! (p ! k)) * prod_list (take k (map (\<lambda>i. u ! i) p))"
proof -
  note f = perm_upt_facts[OF assms(1)]
  have "\<forall>x\<in>set p. x < length (replicate (length u) (0::real))" using f(3) by simp
  from alloc_spec_fold_nth[OF f(2) _ this, of "length p" k] assms(2) f(1)
  show ?thesis by (simp add: alloc_spec_def Let_def)
qed

lemma allocation_weighting_char:
  assumes len: "length (usage s) = N s"
  obtains fl a where "mset fl = mset [0..<N s]" and "sorted (map (\<lambda>i. usage s ! i) fl)"
    and "allocation_weighting s = Inr a" and "length a = N s"
    and "\<forall>k<N s. a ! (fl ! k) = (1 - usage s ! (fl ! k)) * prod_list (take k (map (\<lambda>i. usage s ! i) fl))"
    and "sum_list a = 1 - prod_list (map (\<lambda>i. usage s ! i) fl)"
proof -
  from len obtain fl where tk: "top_k (map (\<lambda>v. - 1 * v) (usage s)) (N s) = Inr (map (\<lambda>i. - (usage s ! i)) fl, fl)"
    and perm: "mset fl = mset [0..<N s]" and sorted: "sorted (map (\<lambda>i. usage s ! i) fl)"
    by (rule top_k_usage)
  note f = perm_upt_facts[OF perm]
  let ?su = "map (\<lambda>i. usage s ! i) fl"
  let ?unorder = "map2 (\<lambda>u p. (1 - u) * p) ?su (cumprod_exclusive ?su)"
  let ?a = "fold (\<lambda>(pos, idx) b. b[idx := b ! idx + ?unorder ! pos]) (enumerate 0 fl) (zeros_vec (N s))"
  have su: "map (\<lambda>v. v * - 1) (map (\<lambda>i. - (usage s ! i)) fl) = ?su" by simp
  have bound: "\<forall>x\<in>set fl. x < N s" using f(3) by simp
  have bound': "list_all (\<lambda>idx. idx < N s) fl" using bound by (simp add: list_all_iff)
  have lu: "length ?unorder = N s"
    by (simp add: cumprod_exclusive_def cumprod_from_length f(1))
  have "allocation_weighting s = Inr (fold (\<lambda>(pos, idx) alloc_weights.
                 vadd alloc_weights (map (\<lambda>m. m * ?unorder ! pos) (identity (N s) ! idx)))
              (enumerate 0 fl) (zeros_vec (N s)))"
    unfolding allocation_weighting_def tk
    by (simp only: sum.case prod.case Let_def su bound' if_True)
  also have "\<dots> = Inr ?a"
    using bound by (simp only: loop_update[where n = "N s"] zeros_vec_def length_replicate)
  finally have 1: "allocation_weighting s = Inr ?a" .
  have 2: "length ?a = N s" by (simp add: bump_length zeros_vec_def)
  have 3: "\<forall>k<N s. ?a ! (fl ! k) = (1 - usage s ! (fl ! k)) * prod_list (take k ?su)"
  proof (intro allI impI)
    fix k assume k: "k < N s"
    have "?a ! (fl ! k) = zeros_vec (N s) ! (fl ! k) + ?unorder ! (0 + k)"
      using f k by (intro bump_nth) (simp_all add: zeros_vec_def)
    also have "zeros_vec (N s) ! (fl ! k) = 0"
    proof -
      have "fl ! k \<in> set fl" using f(1) k by simp
      then have "fl ! k < N s" using bound by blast
      then show ?thesis by (simp add: zeros_vec_def)
    qed
    also have "?unorder ! (0 + k) = (1 - ?su ! k) * prod_list (take k ?su)"
      using unorder_nth[of k ?su] k f(1) by simp
    finally show "?a ! (fl ! k) = (1 - usage s ! (fl ! k)) * prod_list (take k ?su)"
      using k f(1) by simp
  qed
  have "sum_list ?a = sum_list (zeros_vec (N s)) + sum_list (take (length fl) (drop 0 ?unorder))"
    using bound lu f(1) by (intro bump_sum) (simp_all add: zeros_vec_def)
  also have "\<dots> = sum_list ?unorder"
    using lu f(1) by (simp add: zeros_vec_def sum_list_replicate)
  also have "\<dots> = 1 - prod_list ?su"
    using unorder_sum[of ?su 1] by (simp add: cumprod_exclusive_def)
  finally have 4: "sum_list ?a = 1 - prod_list ?su" .
  from perm sorted 1 2 3 4 show thesis by (rule that)
qed

lemma dnc2_simps: "N dnc2 = 3" "usage dnc2 = [1 / 2, 1 / 4, 1]"
  by (simp_all add: dnc2_def init_def)

lemma dnc2_allocation: "allocation_weighting dnc2 = Inr [1 / 8, 3 / 4, 0]"
  by (simp add: allocation_weighting_def dnc2_simps top_k_def upt_rec[of 0] upt_rec[of 1] upt_rec[of 2]
      cumprod_exclusive_def zeros_vec_def identity_def vadd_def enumerate_eq_zip numeral_3_eq_3)

lemma prod_list_unit:
  fixes xs :: "real list"
  assumes "\<forall>x\<in>set xs. 0 \<le> x \<and> x \<le> 1"
  shows "0 \<le> prod_list xs \<and> prod_list xs \<le> 1"
  using assms
proof (induction xs)
  case Nil
  show ?case by simp
next
  case (Cons x xs)
  then show ?case by (simp add: mult_le_one)
qed

lemma sorted_usage_unit:
  assumes "length u = n" and "list_all (\<lambda>v. 0 \<le> v \<and> v \<le> 1) u" and "set fl = {0..<n}"
  shows "\<forall>x\<in>set (map (\<lambda>i. u ! i) fl). 0 \<le> x \<and> x \<le> (1::real)"
  using assms by (auto simp: list_all_length)

lemma allocation_weighting_spec_eq:
  assumes "length (usage s) = N s"
  shows "\<exists>free_list. mset free_list = mset [0..<N s]
           \<and> sorted (map (\<lambda>i. usage s ! i) free_list)
           \<and> allocation_weighting s = Inr (alloc_spec (usage s) free_list)"
proof -
  from assms obtain fl a where perm: "mset fl = mset [0..<N s]"
    and sorted: "sorted (map (\<lambda>i. usage s ! i) fl)"
    and a: "allocation_weighting s = Inr a" and la: "length a = N s"
    and nth: "\<forall>k<N s. a ! (fl ! k) = (1 - usage s ! (fl ! k)) * prod_list (take k (map (\<lambda>i. usage s ! i) fl))"
    by (rule allocation_weighting_char)
  note f = perm_upt_facts[OF perm]
  have "a = alloc_spec (usage s) fl"
  proof (rule nth_equalityI)
    show "length a = length (alloc_spec (usage s) fl)"
      by (simp add: la alloc_spec_length assms)
  next
    fix j assume "j < length a"
    then have "j \<in> set fl" using f(3) la by simp
    then obtain k where k: "k < length fl" "j = fl ! k" by (metis in_set_conv_nth)
    then have kn: "k < N s" using f(1) by simp
    have "alloc_spec (usage s) fl ! (fl ! k) = (1 - usage s ! (fl ! k)) * prod_list (take k (map (\<lambda>i. usage s ! i) fl))"
      using perm kn assms by (intro alloc_spec_nth) simp_all
    moreover have "a ! (fl ! k) = (1 - usage s ! (fl ! k)) * prod_list (take k (map (\<lambda>i. usage s ! i) fl))"
      using nth kn by blast
    ultimately show "a ! j = alloc_spec (usage s) fl ! j" unfolding k(2) by simp
  qed
  with perm sorted a show ?thesis by blast
qed

lemma allocation_weighting_unit:
  assumes "length (usage s) = N s" and "list_all (\<lambda>v. 0 \<le> v \<and> v \<le> 1) (usage s)"
  shows "\<exists>a. allocation_weighting s = Inr a \<and> list_all (\<lambda>v. 0 \<le> v) a \<and> sum_list a \<le> 1"
proof -
  from assms(1) obtain fl a where perm: "mset fl = mset [0..<N s]"
    and a: "allocation_weighting s = Inr a" and la: "length a = N s"
    and nth: "\<forall>k<N s. a ! (fl ! k) = (1 - usage s ! (fl ! k)) * prod_list (take k (map (\<lambda>i. usage s ! i) fl))"
    and sum: "sum_list a = 1 - prod_list (map (\<lambda>i. usage s ! i) fl)"
    by (rule allocation_weighting_char)
  note f = perm_upt_facts[OF perm]
  let ?su = "map (\<lambda>i. usage s ! i) fl"
  have unit: "\<forall>x\<in>set ?su. 0 \<le> x \<and> x \<le> 1"
    using assms f(3) by (rule sorted_usage_unit)
  have "0 \<le> prod_list ?su" using prod_list_unit[OF unit] by simp
  with sum have le: "sum_list a \<le> 1" by simp
  have "0 \<le> a ! j" if "j < length a" for j
  proof -
    from that have "j \<in> set fl" using f(3) la by simp
    then obtain k where k: "k < length fl" "j = fl ! k" by (metis in_set_conv_nth)
    then have kn: "k < N s" using f(1) by simp
    have "\<forall>x\<in>set (take k ?su). 0 \<le> x \<and> x \<le> 1"
      using unit by (meson in_set_takeD)
    then have "0 \<le> prod_list (take k ?su)" using prod_list_unit by blast
    moreover have "usage s ! (fl ! k) \<le> 1"
      using unit k(1) by (simp add: all_set_conv_all_nth)
    ultimately have "0 \<le> (1 - usage s ! (fl ! k)) * prod_list (take k ?su)" by simp
    moreover have "a ! (fl ! k) = (1 - usage s ! (fl ! k)) * prod_list (take k ?su)"
      using nth kn by blast
    ultimately show ?thesis unfolding k(2) by simp
  qed
  then have "list_all (\<lambda>v. 0 \<le> v) a" by (simp add: list_all_length)
  with a le show ?thesis by blast
qed

lemma allocation_weighting_lowest:
  assumes "length (usage s) = N s" and "list_all (\<lambda>v. 0 \<le> v \<and> v \<le> 1) (usage s)" and "0 < N s"
  shows "\<exists>a. allocation_weighting s = Inr a
           \<and> (\<exists>i<N s. (\<forall>j<N s. usage s ! i \<le> usage s ! j) \<and> (\<forall>j<N s. a ! j \<le> a ! i))"
proof -
  from assms(1) obtain fl a where perm: "mset fl = mset [0..<N s]"
    and sorted: "sorted (map (\<lambda>i. usage s ! i) fl)"
    and a: "allocation_weighting s = Inr a" and la: "length a = N s"
    and nth: "\<forall>k<N s. a ! (fl ! k) = (1 - usage s ! (fl ! k)) * prod_list (take k (map (\<lambda>i. usage s ! i) fl))"
    by (rule allocation_weighting_char)
  note f = perm_upt_facts[OF perm]
  let ?su = "map (\<lambda>i. usage s ! i) fl"
  have unit: "\<forall>x\<in>set ?su. 0 \<le> x \<and> x \<le> 1"
    using assms(1,2) f(3) by (rule sorted_usage_unit)
  have i0: "fl ! 0 < N s" using f assms(3) by (metis atLeastLessThan_iff nth_mem)
  have a0: "a ! (fl ! 0) = 1 - usage s ! (fl ! 0)" using nth assms(3) by simp
  have u0: "usage s ! (fl ! 0) \<le> 1"
    using unit assms(3) f(1) by (simp add: all_set_conv_all_nth)
  have cmp: "usage s ! (fl ! 0) \<le> usage s ! j \<and> a ! j \<le> a ! (fl ! 0)" if "j < N s" for j
  proof -
    from that have "j \<in> set fl" using f(3) by simp
    then obtain k where k: "k < length fl" "j = fl ! k" by (metis in_set_conv_nth)
    then have kn: "k < N s" using f(1) by simp
    have "?su ! 0 \<le> ?su ! k"
      using sorted k(1) by (intro sorted_nth_mono) simp_all
    moreover have "0 < length fl" using k(1) by (cases fl) simp_all
    ultimately have le: "usage s ! (fl ! 0) \<le> usage s ! (fl ! k)"
      using k(1) by simp
    have "\<forall>x\<in>set (take k ?su). 0 \<le> x \<and> x \<le> 1"
      using unit by (meson in_set_takeD)
    then have p: "0 \<le> prod_list (take k ?su)" "prod_list (take k ?su) \<le> 1"
      using prod_list_unit by blast+
    have "(1 - usage s ! (fl ! k)) * prod_list (take k ?su) \<le> (1 - usage s ! (fl ! 0)) * 1"
      using le p u0 by (intro mult_mono) simp_all
    moreover have "a ! (fl ! k) = (1 - usage s ! (fl ! k)) * prod_list (take k ?su)"
      using nth kn by blast
    ultimately have "a ! (fl ! k) \<le> a ! (fl ! 0)" using a0 by simp
    with le show ?thesis unfolding k(2) by simp
  qed
  with a i0 show ?thesis by blast
qed

section \<open>Claims about the interface partition\<close>

text \<open>
  C2: for an interface vector of length \<open>R * W + 3 * W + 5 * R + 3\<close>,
  \<^verbatim>\<open>partition_interface\<close> cuts it into ten contiguous fields, in the order read keys,
  read strengths, write key, write strength, erase, write vector, free gates, allocation
  gate, write gate, read modes, of sizes \<open>R * W\<close>, \<open>R\<close>, \<open>W\<close>, 1, \<open>W\<close>, \<open>W\<close>,
  \<open>R\<close>, 1, 1, \<open>3 * R\<close>; every returned value is its field, reshaped and passed through
  its activation.
\<close>

theorem partition_interface_layout:
  assumes "length (interface s) = R s * W s + 3 * W s + 5 * R s + 3"
  shows "map length (interface_fields s) = [R s * W s, R s, W s, 1, W s, W s, R s, 1, 1, 3 * R s]
       \<and> concat (interface_fields s) = interface s
       \<and> partition_interface s =
          Inr \<lparr> k_read = map (\<lambda>i. take (W s) (drop (i * W s) (interface_fields s ! 0))) [0..<R s],
                b_read = map (\<lambda>x. 1 + softplus x) (interface_fields s ! 1),
                k_write = interface_fields s ! 2,
                b_write = map (\<lambda>x. 1 + softplus x) (interface_fields s ! 3),
                erase = map sigmoid (interface_fields s ! 4),
                write_v = interface_fields s ! 5,
                free_gates = map sigmoid (interface_fields s ! 6),
                alloc_gate = map sigmoid (interface_fields s ! 7),
                write_gate = map sigmoid (interface_fields s ! 8),
                read_modes = softmax0 (map (\<lambda>i. take (R s) (drop (i * R s) (interface_fields s ! 9))) [0..<3]) \<rparr>"
  using interface_fields_sizes[OF assms] interface_fields_concat[OF assms]
    partition_interface_fields[OF assms]
  by simp

theorem partition_interface_layout_witness:
  "length (interface dnc0) = R dnc0 * W dnc0 + 3 * W dnc0 + 5 * R dnc0 + 3
   \<and> map length (interface_fields dnc0) = [1, 1, 1, 1, 1, 1, 1, 1, 1, 3]
   \<and> concat (interface_fields dnc0) = replicate 12 0"
  using partition_interface_layout[of dnc0] by (simp add: dnc0_simps)

text \<open>
  C7: the read strengths and the write strength that \<^verbatim>\<open>partition_interface\<close> returns
  are 1 plus the softplus of the raw entries of their fields, and every one of them is at
  least 1.
\<close>

theorem strengths_at_least_one:
  assumes "partition_interface s = Inr p"
  shows "b_read p = map (\<lambda>x. 1 + softplus x) (interface_fields s ! 1)
       \<and> b_write p = map (\<lambda>x. 1 + softplus x) (interface_fields s ! 3)
       \<and> list_all (\<lambda>b. 1 \<le> b) (b_read p) \<and> list_all (\<lambda>b. 1 \<le> b) (b_write p)"
proof -
  have len: "length (interface s) = R s * W s + 3 * W s + 5 * R s + 3"
    using assms by (rule partition_interface_length)
  have "0 \<le> softplus x" for x
    using softplus_pos[of x] by simp
  then show ?thesis
    using assms partition_interface_fields[OF len] by (auto simp: list_all_iff)
qed

theorem strengths_at_least_one_witness:
  "\<exists>p. partition_interface dnc0 = Inr p
       \<and> list_all (\<lambda>b. 1 \<le> b) (b_read p) \<and> list_all (\<lambda>b. 1 \<le> b) (b_write p)"
proof -
  have "length (interface dnc0) = R dnc0 * W dnc0 + 3 * W dnc0 + 5 * R dnc0 + 3"
    by (simp add: dnc0_simps)
  from partition_interface_fields[OF this]
  obtain p where p: "partition_interface dnc0 = Inr p" by blast
  from strengths_at_least_one[OF p] p show ?thesis by blast
qed

section \<open>Claims about the step\<close>

text \<open>
  C1 (the claim does not hold of this code): the write step is an empty method. On an
  object whose memory rows are zero and whose write weighting is one-hot on row 0, row 0 is
  still zero after \<^verbatim>\<open>write\<close>, whatever vector was to be written; it is not \<open>[1]\<close>.
\<close>

theorem write_stub_keeps_row:
  "W_write dnc1 = [1, 0] \<and> M dnc1 ! 0 = [0] \<and> M (write dnc1) ! 0 = [0] \<and> M (write dnc1) ! 0 \<noteq> [1]"
  by (simp add: dnc1_def dnc0_simps write_def)

text \<open>
  C8: the diagonal of the temporal link matrix is zero in the object that \<^verbatim>\<open>__init__\<close>
  builds and after every step of every sequence of steps on it.
\<close>

theorem link_diagonal_zero:
  "diagonal (L (init d y (n, w) r)) = replicate n 0
   \<and> diagonal (L (run lstm (init d y (n, w) r) xs)) = replicate n 0"
  by (simp add: run_L init_L diagonal_zeros)

text \<open>
  C9: one invocation of \<^verbatim>\<open>call\<close>, on any object and any input, whether it returns or
  raises, leaves the memory matrix, the usage vector, the link matrix and the precedence
  vector as they were.
\<close>

theorem call_leaves_memory_state:
  "M (fst (call lstm s x)) = M s \<and> usage (fst (call lstm s x)) = usage s \<and>
   L (fst (call lstm s x)) = L s \<and> W_precedence (fst (call lstm s x)) = W_precedence s"
  by (rule call_frame)

text \<open>
  C10 (the claim does not hold of this code): \<^verbatim>\<open>call\<close> does not return
  \<^verbatim>\<open>None\<close>. Its first statement runs \<^verbatim>\<open>controller\<close>, whose call of the
  \<^verbatim>\<open>Concatenate\<close> layer with the keyword \<^verbatim>\<open>axis\<close> raises \<^verbatim>\<open>TypeError\<close>: on the
  sample object and the input \<open>[0]\<close> the call raises, leaves the object as it was and
  returns no value.
\<close>

theorem call_raises_TypeError:
  "call keras0 dnc0 [0] = (dnc0, Inl TypeError) \<and> snd (call keras0 dnc0 [0]) \<noteq> Inr None"
  by (simp add: call_raises)

section \<open>Claims about content lookup and allocation\<close>

text \<open>
  C5: whenever \<^verbatim>\<open>content_lookup\<close> returns a weighting for a memory with at least one
  row, the weighting has one row for each memory row, and each of its columns is entrywise
  non-negative and sums to 1.
\<close>

theorem content_lookup_softmax_columns:
  assumes "content_lookup s key strength = Inr w" and "M s \<noteq> []"
  shows "length w = length (M s)
       \<and> (\<forall>j<ncols w. list_all (\<lambda>v. 0 \<le> v) (map (\<lambda>r. r ! j) w)
                       \<and> sum_list (map (\<lambda>r. r ! j) w) = 1)"
  using assms by (rule content_lookup_columns)

theorem content_lookup_softmax_columns_witness:
  "content_lookup dnc0 [[0]] [1] = Inr [[1 / 2], [1 / 2]] \<and> M dnc0 \<noteq> []
   \<and> sum_list (map (\<lambda>r. r ! 0) [[1 / 2], [1 / 2 :: real]]) = 1"
  using content_lookup_softmax_columns[OF dnc0_content_lookup]
  by (simp add: dnc0_content_lookup dnc0_simps)

text \<open>
  C3: on an object whose usage vector has \<open>N\<close> entries, \<^verbatim>\<open>allocation_weighting\<close>
  returns the weighting of the specification for a free list that is a permutation of the
  row indices and lists the usage values in ascending order: exclusive cumulative product
  of the sorted values, weight \<open>(1 - sorted_u[k]) * cumprod[k]\<close> at sorted position \<open>k\<close>,
  scattered to row \<open>free_list[k]\<close>.
\<close>

theorem allocation_weighting_sort_scan_scatter:
  assumes "length (usage s) = N s"
  shows "\<exists>free_list. mset free_list = mset [0..<N s]
           \<and> sorted (map (\<lambda>i. usage s ! i) free_list)
           \<and> allocation_weighting s = Inr (alloc_spec (usage s) free_list)"
  using assms by (rule allocation_weighting_spec_eq)

theorem allocation_weighting_sort_scan_scatter_witness:
  "length (usage dnc2) = N dnc2
   \<and> (\<exists>free_list. mset free_list = mset [0..<N dnc2]
           \<and> sorted (map (\<lambda>i. usage dnc2 ! i) free_list)
           \<and> Inr [1 / 8, 3 / 4, 0] = Inr (alloc_spec (usage dnc2) free_list :: vec)
           \<and> allocation_weighting dnc2 = (Inr [1 / 8, 3 / 4, 0] :: error + vec))"
proof -
  have len: "length (usage dnc2) = N dnc2" by (simp add: dnc2_simps)
  from allocation_weighting_sort_scan_scatter[OF len] len show ?thesis
    unfolding dnc2_allocation by blast
qed

text \<open>
  C4: for a usage vector of \<open>N\<close> entries that all lie in \<open>[0, 1]\<close>,
  \<^verbatim>\<open>allocation_weighting\<close> returns a weighting whose entries are non-negative and sum to
  at most 1.
\<close>

theorem allocation_weighting_nonneg_sum_le_one:
  assumes "length (usage s) = N s" and "list_all (\<lambda>v. 0 \<le> v \<and> v \<le> 1) (usage s)"
  shows "\<exists>a. allocation_weighting s = Inr a \<and> list_all (\<lambda>v. 0 \<le> v) a \<and> sum_list a \<le> 1"
  using assms by (rule allocation_weighting_unit)

theorem allocation_weighting_nonneg_sum_le_one_witness:
  "length (usage dnc2) = N dnc2 \<and> list_all (\<lambda>v. 0 \<le> v \<and> v \<le> 1) (usage dnc2)
   \<and> allocation_weighting dnc2 = Inr [1 / 8, 3 / 4, 0]
   \<and> list_all (\<lambda>v. 0 \<le> v) [1 / 8, 3 / 4, 0 :: real] \<and> sum_list [1 / 8, 3 / 4, 0 :: real] \<le> 1"
proof -
  have len: "length (usage dnc2) = N dnc2" by (simp add: dnc2_simps)
  have unit: "list_all (\<lambda>v. 0 \<le> v \<and> v \<le> 1) (usage dnc2)" by (simp add: dnc2_simps)
  from allocation_weighting_nonneg_sum_le_one[OF len unit] len unit show ?thesis
    unfolding dnc2_allocation by simp
qed

text \<open>
  C6: for a usage vector of \<open>N > 0\<close> entries that all lie in \<open>[0, 1]\<close>, some row of
  minimal usage receives an allocation weight that is at least the weight of every row;
  a row whose usage is strictly below that of every other row is that row.
\<close>

theorem lowest_usage_largest_weight:
  assumes "length (usage s) = N s" and "list_all (\<lambda>v. 0 \<le> v \<and> v \<le> 1) (usage s)"
    and "0 < N s"
  shows "\<exists>a. allocation_weighting s = Inr a
           \<and> (\<exists>i<N s. (\<forall>j<N s. usage s ! i \<le> usage s ! j) \<and> (\<forall>j<N s. a ! j \<le> a ! i))
           \<and> (\<forall>i<N s. (\<forall>j<N s. j \<noteq> i \<longrightarrow> usage s ! i < usage s ! j)
                       \<longrightarrow> (\<forall>j<N s. a ! j \<le> a ! i))"
proof -
  from allocation_weighting_lowest[OF assms] obtain a i0
    where a: "allocation_weighting s = Inr a" and i0: "i0 < N s"
      and low: "\<forall>j<N s. usage s ! i0 \<le> usage s ! j" and top: "\<forall>j<N s. a ! j \<le> a ! i0"
    by blast
  have "\<forall>j<N s. a ! j \<le> a ! i"
    if i: "i < N s" and strict: "\<forall>j<N s. j \<noteq> i \<longrightarrow> usage s ! i < usage s ! j" for i
  proof -
    have "i0 = i"
    proof (rule ccontr)
      assume "i0 \<noteq> i"
      with strict i0 have "usage s ! i < usage s ! i0" by blast
      moreover from low i have "usage s ! i0 \<le> usage s ! i" by blast
      ultimately show False by simp
    qed
    with top show ?thesis by simp
  qed
  with a i0 low top show ?thesis by blast
qed

theorem lowest_usage_largest_weight_witness:
  "length (usage dnc2) = N dnc2 \<and> list_all (\<lambda>v. 0 \<le> v \<and> v \<le> 1) (usage dnc2) \<and> 0 < N dnc2
   \<and> (\<exists>a. allocation_weighting dnc2 = Inr a
           \<and> (\<exists>i<N dnc2. (\<forall>j<N dnc2. usage dnc2 ! i \<le> usage dnc2 ! j)
                          \<and> (\<forall>j<N dnc2. a ! j \<le> a ! i)))"
proof -
  have len: "length (usage dnc2) = N dnc2" by (simp add: dnc2_simps)
  have unit: "list_all (\<lambda>v. 0 \<le> v \<and> v \<le> 1) (usage dnc2)" by (simp add: dnc2_simps)
  have pos: "0 < N dnc2" by (simp add: dnc2_simps)
  from lowest_usage_largest_weight[OF len unit pos] len unit pos show ?thesis by blast
qed

end
